theory Spec2Isabelle
  imports Complex_Main "HOL-Library.Sublist" "HOL-Library.Product_Lexorder"
begin

section \<open>Numbers and messages\<close>

text \<open>
  Python floats are modelled as exact rationals: every constant of the source
  (0.90, 0.20, 0.65, ...) is the rational it denotes, and arithmetic is exact.
  Binary rounding of IEEE doubles is outside the model.

  User-facing messages that the source builds with f-strings are values of the datatype
  \<open>message\<close>: one constructor per template, carrying the interpolated values, and
  \<open>Text\<close> for a message that is a plain string.
\<close>

datatype message =
    Text string
  | Image_too_small nat nat
  | Image_too_blurry rat
  | Image_brightness_poor rat
  | Quality_check_error string

section \<open>permit_feature_extractor.py: the feature vector\<close>



section \<open>image_verification.py: the image quality gate\<close>

text \<open>
  What \<open>cv2.imread\<close> and the measurements on the decoded image give: the shape of the
  array, the variance of the Laplacian of the grayscale image and the mean of the
  grayscale image. OpenCV computes them; the gate only compares them.
\<close>

record image =
  height :: nat
  width :: nat
  lap_var :: rat
  brightness :: rat

datatype imread_result =
    Imread_raises string
  | Imread_none
  | Imread_array image

fun check_image_quality :: "imread_result \<Rightarrow> bool \<times> message" where
  "check_image_quality (Imread_raises e) = (False, Quality_check_error e)"
| "check_image_quality Imread_none = (False, Text ''Invalid image file'')"
| "check_image_quality (Imread_array img) =
     (let h = height img; w = width img in
      if h < 200 \<or> w < 200 then (False, Image_too_small w h)
      else if lap_var img < 30 then (False, Image_too_blurry (lap_var img))
      else if brightness img < 30 \<or> brightness img > 230
        then (False, Image_brightness_poor (brightness img))
      else (True, Text ''Image quality OK''))"

section \<open>Python strings\<close>

text \<open>
  A Python string is modelled as a list of characters with code points 0 to 255; on this
  range the character classes below are those of Python 3: \<open>str.isspace\<close> and the
  regular expression class \<open>\s\<close> (the same set), the class \<open>\w\<close> of a \<open>str\<close>
  pattern, and \<open>str.lower\<close>, which maps one character to one character there.
\<close>

definition is_space :: "char \<Rightarrow> bool" where
  "is_space c = (let n = (of_char c :: nat) in
     (9 \<le> n \<and> n \<le> 13) \<or> (28 \<le> n \<and> n \<le> 32) \<or> n = 133 \<or> n = 160)"

definition is_word :: "char \<Rightarrow> bool" where
  "is_word c = (let n = (of_char c :: nat) in
     (48 \<le> n \<and> n \<le> 57) \<or> (65 \<le> n \<and> n \<le> 90) \<or> n = 95 \<or> (97 \<le> n \<and> n \<le> 122) \<or>
     n = 170 \<or> n = 178 \<or> n = 179 \<or> n = 181 \<or> n = 185 \<or> n = 186 \<or>
     n = 188 \<or> n = 189 \<or> n = 190 \<or>
     (192 \<le> n \<and> n \<le> 214) \<or> (216 \<le> n \<and> n \<le> 246) \<or> 248 \<le> n)"

definition lower_char :: "char \<Rightarrow> char" where
  "lower_char c = (let n = (of_char c :: nat) in
     if (65 \<le> n \<and> n \<le> 90) \<or> (192 \<le> n \<and> n \<le> 214) \<or> (216 \<le> n \<and> n \<le> 222)
     then char_of (n + 32) else c)"

definition lower :: "string \<Rightarrow> string" where
  "lower s = map lower_char s"

definition strip :: "string \<Rightarrow> string" where
  "strip s = rev (dropWhile is_space (rev (dropWhile is_space s)))"

text \<open>The character class \<open>[a-z0-9]\<close>.\<close>

definition is_az09 :: "char \<Rightarrow> bool" where
  "is_az09 c = (let n = (of_char c :: nat) in (97 \<le> n \<and> n \<le> 122) \<or> (48 \<le> n \<and> n \<le> 57))"

text \<open>
  The zero-width assertion \<open>\b\<close>: the position between a character that is the end of
  a word (\<open>before\<close> says whether the previous character is a word character; at the start
  of the string there is none) and the rest of the string is a boundary when exactly one
  side is a word character.
\<close>

definition word_boundary :: "bool \<Rightarrow> string \<Rightarrow> bool" where
  "word_boundary before rest =
     (before \<noteq> (case rest of [] \<Rightarrow> False | c # _ \<Rightarrow> is_word c))"

definition matches_at :: "string \<Rightarrow> bool \<Rightarrow> string \<Rightarrow> bool" where
  "matches_at w before s =
     (word_boundary before s \<and> prefix w s \<and>
      word_boundary (is_word (last w)) (drop (length w) s))"

text \<open>
  \<^verbatim>\<open>re.sub(rf'\b{w}\b', '', s)\<close> for a literal word \<open>w\<close>: the string is scanned from
  the left; a match is dropped and the scan goes on behind it, any other character is
  kept.
\<close>

fun re_sub_word :: "string \<Rightarrow> bool \<Rightarrow> string \<Rightarrow> string" where
  "re_sub_word [] before s = s"
| "re_sub_word (x # xs) before [] = []"
| "re_sub_word (x # xs) before (c # cs) =
     (if matches_at (x # xs) before (c # cs)
      then re_sub_word (x # xs) (is_word (last (x # xs))) (drop (length xs) cs)
      else c # re_sub_word (x # xs) (is_word c) cs)"

text \<open>\<^verbatim>\<open>re.search(rf'\b{w}\b', s) is not None\<close>, for a non-empty literal word.\<close>

fun re_search_word :: "string \<Rightarrow> bool \<Rightarrow> string \<Rightarrow> bool" where
  "re_search_word w before [] = False"
| "re_search_word w before (c # cs) =
     (matches_at w before (c # cs) \<or> re_search_word w (is_word c) cs)"

text \<open>\<^verbatim>\<open>re.sub(r'\s+', ' ', s)\<close>: every maximal run of whitespace becomes one space.\<close>

function collapse_ws :: "string \<Rightarrow> string" where
  "collapse_ws [] = []"
| "collapse_ws (c # cs) =
     (if is_space c then CHR '' '' # collapse_ws (dropWhile is_space cs)
      else c # collapse_ws cs)"
  by pat_completeness auto
termination
  by (relation "measure length") (auto simp: length_dropWhile_le less_Suc_eq_le)

section \<open>image_verification.py: name normalisation\<close>

definition SUFFIXES :: "string list" where
  "SUFFIXES = [''trading'', ''enterprises'', ''enterprise'', ''farm'', ''farms'',
               ''agri'', ''agricultural'', ''products'', ''store'', ''shop'']"

definition strip_suffixes :: "string \<Rightarrow> string" where
  "strip_suffixes name = foldl (\<lambda>n suffix. re_sub_word suffix False n) name SUFFIXES"

definition normalize_name :: "string \<Rightarrow> string" where
  "normalize_name name =
     (if name = [] then []
      else strip (collapse_ws
             (filter (\<lambda>c. is_az09 c \<or> is_space c) (strip_suffixes (strip (lower name))))))"

text \<open>
  The shape of a string after \<open>collapse_ws\<close>: every whitespace character is a space and
  is not followed by another whitespace character.
\<close>

fun single_spaced :: "string \<Rightarrow> bool" where
  "single_spaced [] = True"
| "single_spaced [c] = (is_space c \<longrightarrow> c = CHR '' '')"
| "single_spaced (c # d # cs) =
     ((is_space c \<longrightarrow> c = CHR '' '' \<and> \<not> is_space d) \<and> single_spaced (d # cs))"

section \<open>difflib.SequenceMatcher\<close>

text \<open>
  \<open>_name_similarity\<close> ends in \<^verbatim>\<open>SequenceMatcher(None, a, b).ratio()\<close> of Python's
  standard library. The functions below follow \<open>difflib.py\<close>: \<open>b2j\<close> is the index of
  the positions of each element of \<open>b\<close>, without the elements that the automatic junk
  heuristic drops (more than \<open>n // 100 + 1\<close> occurrences in a \<open>b\<close> of at least 200
  elements); the junk set itself is empty, since \<open>isjunk\<close> is \<open>None\<close>, so only the
  first two extension loops of \<open>find_longest_match\<close> can run. A block is the triple
  \<open>(i, j, k)\<close> with \<open>a[i:i+k] == b[j:j+k]\<close>.
\<close>

type_synonym block = "nat \<times> nat \<times> nat"

definition b2j :: "'a list \<Rightarrow> 'a \<Rightarrow> nat list" where
  "b2j b elt =
     (let n = length b; idxs = filter (\<lambda>j. b ! j = elt) [0..<n] in
      if 200 \<le> n \<and> n div 100 + 1 < length idxs then [] else idxs)"

text \<open>\<^verbatim>\<open>j2len.get(j, 0)\<close> on the dictionary of the previous row.\<close>

definition j2len_get :: "(nat \<times> nat) list \<Rightarrow> nat \<Rightarrow> nat" where
  "j2len_get j2len j = (case map_of j2len j of None \<Rightarrow> 0 | Some k \<Rightarrow> k)"

text \<open>
  The inner loop of \<open>find_longest_match\<close> over the positions \<open>j\<close> of \<open>a[i]\<close> in
  \<open>b\<close>: positions below \<open>blo\<close> are skipped, the first position at or above \<open>bhi\<close>
  ends the loop. \<open>j2len.get(j-1, 0)\<close> at \<open>j = 0\<close> asks for the key \<open>-1\<close>, which is never
  present.
\<close>

fun row_loop :: "nat \<Rightarrow> nat \<Rightarrow> nat \<Rightarrow> (nat \<times> nat) list \<Rightarrow> nat list \<Rightarrow>
    (nat \<times> nat) list \<times> block \<Rightarrow> (nat \<times> nat) list \<times> block" where
  "row_loop i blo bhi j2len [] st = st"
| "row_loop i blo bhi j2len (j # js) (newj2len, (besti, bestj, bestsize)) =
     (if j < blo then row_loop i blo bhi j2len js (newj2len, (besti, bestj, bestsize))
      else if bhi \<le> j then (newj2len, (besti, bestj, bestsize))
      else
        let k = (if j = 0 then 0 else j2len_get j2len (j - 1)) + 1 in
        row_loop i blo bhi j2len js
          ((j, k) # newj2len,
           if bestsize < k then (i + 1 - k, j + 1 - k, k) else (besti, bestj, bestsize)))"

fun rows :: "'a list \<Rightarrow> 'a list \<Rightarrow> nat \<Rightarrow> nat \<Rightarrow> nat list \<Rightarrow>
    (nat \<times> nat) list \<times> block \<Rightarrow> (nat \<times> nat) list \<times> block" where
  "rows a b blo bhi [] st = st"
| "rows a b blo bhi (i # is) (j2len, best) =
     rows a b blo bhi is (row_loop i blo bhi j2len (b2j b (a ! i)) ([], best))"

function extend_left :: "'a list \<Rightarrow> 'a list \<Rightarrow> nat \<Rightarrow> nat \<Rightarrow> block \<Rightarrow> block" where
  "extend_left a b alo blo (besti, bestj, bestsize) =
     (if alo < besti \<and> blo < bestj \<and> a ! (besti - 1) = b ! (bestj - 1)
      then extend_left a b alo blo (besti - 1, bestj - 1, bestsize + 1)
      else (besti, bestj, bestsize))"
  by pat_completeness auto
termination
  by (relation "measure (\<lambda>(a, b, alo, blo, besti, bestj, bestsize). besti)") auto

function extend_right :: "'a list \<Rightarrow> 'a list \<Rightarrow> nat \<Rightarrow> nat \<Rightarrow> block \<Rightarrow> block" where
  "extend_right a b ahi bhi (besti, bestj, bestsize) =
     (if besti + bestsize < ahi \<and> bestj + bestsize < bhi \<and>
         a ! (besti + bestsize) = b ! (bestj + bestsize)
      then extend_right a b ahi bhi (besti, bestj, bestsize + 1)
      else (besti, bestj, bestsize))"
  by pat_completeness auto
termination
  by (relation "measure (\<lambda>(a, b, ahi, bhi, besti, bestj, bestsize). ahi - (besti + bestsize))")
     auto

declare extend_left.simps [simp del] extend_right.simps [simp del]

definition find_longest_match :: "'a list \<Rightarrow> 'a list \<Rightarrow> nat \<Rightarrow> nat \<Rightarrow> nat \<Rightarrow> nat \<Rightarrow> block" where
  "find_longest_match a b alo ahi blo bhi =
     extend_right a b ahi bhi
       (extend_left a b alo blo
          (snd (rows a b blo bhi [alo..<ahi] ([], (alo, blo, 0)))))"


text \<open>
  The bounds of the block that \<open>find_longest_match\<close> returns, needed for the termination
  of \<open>get_matching_blocks\<close>.
\<close>

definition block_ok :: "nat \<Rightarrow> nat \<Rightarrow> block \<Rightarrow> bool" where
  "block_ok alo hi blk =
     (case blk of (i, j, k) \<Rightarrow> alo \<le> i \<and> ((k = 0 \<and> i = alo) \<or> i + k \<le> hi))"

lemma j2len_get_le: "\<forall>(j, k) \<in> set j2len. k \<le> n \<Longrightarrow> j2len_get j2len j \<le> n"
  by (auto simp: j2len_get_def split: option.splits dest: map_of_SomeD)

lemma row_loop_inv:
  assumes "alo \<le> i" and "\<forall>(j, k) \<in> set j2len. k \<le> i - alo"
    and "\<forall>(j, k) \<in> set newj2len. k \<le> Suc i - alo" and "block_ok alo (Suc i) best"
    and "row_loop i blo bhi j2len js (newj2len, best) = (newj2len', best')"
  shows "(\<forall>(j, k) \<in> set newj2len'. k \<le> Suc i - alo) \<and> block_ok alo (Suc i) best'"
  using assms(3-5)
proof (induction js arbitrary: newj2len best)
  case Nil
  then show ?case by simp
next
  case (Cons j js)
  obtain bi bj bs where best: "best = (bi, bj, bs)" by (cases best) auto
  show ?case
  proof (cases "j < blo")
    case True
    with Cons best show ?thesis by simp
  next
    case False
    note nlo = this
    show ?thesis
    proof (cases "bhi \<le> j")
      case True
      with Cons.prems nlo best show ?thesis by simp
    next
      case False
      define k where "k = (if j = 0 then 0 else j2len_get j2len (j - 1)) + 1"
      have kle: "k \<le> Suc i - alo"
        using j2len_get_le [OF assms(2), of "j - 1"] assms(1) by (auto simp: k_def)
      define best2 where
        "best2 = (if bs < k then (i + 1 - k, j + 1 - k, k) else (bi, bj, bs))"
      have ok2: "block_ok alo (Suc i) best2"
        using Cons.prems(2) kle assms(1) by (auto simp: best2_def best block_ok_def)
      have new2: "\<forall>(j', k') \<in> set ((j, k) # newj2len). k' \<le> Suc i - alo"
        using Cons.prems(1) kle by auto
      have "row_loop i blo bhi j2len (j # js) (newj2len, best) =
            row_loop i blo bhi j2len js ((j, k) # newj2len, best2)"
        using nlo False by (simp add: best k_def best2_def Let_def)
      with Cons.prems(3) have "row_loop i blo bhi j2len js ((j, k) # newj2len, best2) =
          (newj2len', best')" by simp
      from Cons.IH [OF new2 ok2 this] show ?thesis .
    qed
  qed
qed

lemma block_ok_mono: "block_ok alo hi blk \<Longrightarrow> hi \<le> hi' \<Longrightarrow> block_ok alo hi' blk"
  by (auto simp: block_ok_def)

lemma rows_inv:
  "alo \<le> i \<Longrightarrow> i \<le> ahi \<Longrightarrow> \<forall>(j, k) \<in> set j2len. k \<le> i - alo \<Longrightarrow> block_ok alo i best \<Longrightarrow>
   block_ok alo ahi (snd (rows a b blo bhi [i..<ahi] (j2len, best)))"
proof (induction "ahi - i" arbitrary: i j2len best)
  case 0
  then show ?case by simp
next
  case (Suc n)
  then have lt: "i < ahi" by simp
  obtain nj nb where r: "row_loop i blo bhi j2len (b2j b (a ! i)) ([], best) = (nj, nb)"
    by (cases "row_loop i blo bhi j2len (b2j b (a ! i)) ([], best)") auto
  have "(\<forall>(j, k) \<in> set nj. k \<le> Suc i - alo) \<and> block_ok alo (Suc i) nb"
    using row_loop_inv [OF Suc.prems(1) Suc.prems(3) _ _ r] block_ok_mono [OF Suc.prems(4)]
    by simp
  then have "block_ok alo ahi (snd (rows a b blo bhi [Suc i..<ahi] (nj, nb)))"
    using Suc.hyps(1) [of "Suc i" nj nb] Suc.hyps(2) Suc.prems(1) lt by simp
  then show ?case using lt r by (simp add: upt_conv_Cons)
qed

lemma extend_left_ok:
  "block_ok alo hi blk \<Longrightarrow> block_ok alo hi (extend_left a b alo blo blk)"
proof (induction a b alo blo blk rule: extend_left.induct)
  case (1 a b alo blo besti bestj bestsize)
  show ?case
  proof (cases "alo < besti \<and> blo < bestj \<and> a ! (besti - 1) = b ! (bestj - 1)")
    case True
    with 1(2) have "block_ok alo hi (besti - 1, bestj - 1, bestsize + 1)"
      by (auto simp: block_ok_def)
    with True have "block_ok alo hi (extend_left a b alo blo (besti - 1, bestj - 1, bestsize + 1))"
      by (rule 1(1))
    moreover have "extend_left a b alo blo (besti, bestj, bestsize) =
        extend_left a b alo blo (besti - 1, bestj - 1, bestsize + 1)"
      using True by (subst extend_left.simps) simp
    ultimately show ?thesis by simp
  next
    case False
    then have "extend_left a b alo blo (besti, bestj, bestsize) = (besti, bestj, bestsize)"
      by (subst extend_left.simps) auto
    with 1(2) show ?thesis by simp
  qed
qed

lemma extend_right_ok:
  "block_ok alo ahi blk \<Longrightarrow> block_ok alo ahi (extend_right a b ahi bhi blk)"
proof (induction a b ahi bhi blk rule: extend_right.induct)
  case (1 a b ahi bhi besti bestj bestsize)
  show ?case
  proof (cases "besti + bestsize < ahi \<and> bestj + bestsize < bhi \<and>
         a ! (besti + bestsize) = b ! (bestj + bestsize)")
    case True
    with 1(2) have "block_ok alo ahi (besti, bestj, bestsize + 1)"
      by (auto simp: block_ok_def)
    with True have "block_ok alo ahi (extend_right a b ahi bhi (besti, bestj, bestsize + 1))"
      by (rule 1(1))
    moreover have "extend_right a b ahi bhi (besti, bestj, bestsize) =
        extend_right a b ahi bhi (besti, bestj, bestsize + 1)"
      using True by (subst extend_right.simps) simp
    ultimately show ?thesis by simp
  next
    case False
    then have "extend_right a b ahi bhi (besti, bestj, bestsize) = (besti, bestj, bestsize)"
      by (subst extend_right.simps) auto
    with 1(2) show ?thesis by simp
  qed
qed

lemma find_longest_match_ok: "block_ok alo ahi (find_longest_match a b alo ahi blo bhi)"
proof (cases "alo \<le> ahi")
  case True
  have "block_ok alo alo (alo, blo, 0)" by (simp add: block_ok_def)
  then have "block_ok alo ahi (snd (rows a b blo bhi [alo..<ahi] ([], (alo, blo, 0))))"
    using rows_inv [of alo alo ahi "[]"] True by simp
  then show ?thesis
    unfolding find_longest_match_def by (intro extend_right_ok extend_left_ok)
next
  case False
  then have "block_ok alo ahi (snd (rows a b blo bhi [alo..<ahi] ([], (alo, blo, 0))))"
    by (simp add: block_ok_def)
  then show ?thesis
    unfolding find_longest_match_def by (intro extend_right_ok extend_left_ok)
qed

lemma find_longest_match_bounds:
  "find_longest_match a b alo ahi blo bhi = (i, j, k) \<Longrightarrow> k \<noteq> 0 \<Longrightarrow> alo \<le> i \<and> i + k \<le> ahi"
  using find_longest_match_ok [of alo ahi a b blo bhi] by (auto simp: block_ok_def)

text \<open>
  The loop of \<open>get_matching_blocks\<close>: the queue is a stack (\<open>pop\<close> takes the entry
  appended last), here a list with the top at its head.
\<close>

type_synonym range = "nat \<times> nat \<times> nat \<times> nat"

definition block_size :: "block \<Rightarrow> nat" where
  "block_size x = (case x of (i, j, k) \<Rightarrow> k)"

text \<open>The ranges left and right of a match that the loop appends to the queue.\<close>

definition push_ranges :: "range \<Rightarrow> block \<Rightarrow> range list" where
  "push_ranges r x =
     (case r of (alo, ahi, blo, bhi) \<Rightarrow> case x of (i, j, k) \<Rightarrow>
        (if i + k < ahi \<and> j + k < bhi then [(i + k, ahi, j + k, bhi)] else []) @
        (if alo < i \<and> blo < j then [(alo, i, blo, j)] else []))"

definition queue_weight :: "range list \<Rightarrow> nat" where
  "queue_weight q = sum_list (map (\<lambda>(alo, ahi, blo, bhi). 2 * (ahi - alo) + 1) q)"

lemma queue_weight_append: "queue_weight (p @ q) = queue_weight p + queue_weight q"
  by (simp add: queue_weight_def)

lemma queue_weight_push_ranges:
  assumes "find_longest_match a b alo ahi blo bhi = x" and "block_size x \<noteq> 0"
  shows "queue_weight (push_ranges (alo, ahi, blo, bhi) x) < 2 * (ahi - alo) + 1"
proof -
  obtain i j k where x: "x = (i, j, k)" by (cases x) auto
  with assms have "find_longest_match a b alo ahi blo bhi = (i, j, k)" and k: "k \<noteq> 0"
    by (simp_all add: block_size_def)
  from find_longest_match_bounds [OF this] have "alo \<le> i \<and> i + k \<le> ahi" .
  with k show ?thesis by (auto simp: x push_ranges_def queue_weight_def)
qed

function blocks_loop :: "'a list \<Rightarrow> 'a list \<Rightarrow> range list \<Rightarrow> block list \<Rightarrow> block list" where
  "blocks_loop a b [] matching_blocks = matching_blocks"
| "blocks_loop a b ((alo, ahi, blo, bhi) # queue) matching_blocks =
     (let x = find_longest_match a b alo ahi blo bhi in
      if block_size x \<noteq> 0
      then blocks_loop a b (push_ranges (alo, ahi, blo, bhi) x @ queue) (matching_blocks @ [x])
      else blocks_loop a b queue matching_blocks)"
  by pat_completeness auto
termination
proof (relation "measure (\<lambda>(a, b, q, m). queue_weight q)", goal_cases)
  case 1
  show ?case by simp
next
  case (2 a b alo ahi blo bhi queue matching_blocks x)
  have "queue_weight (push_ranges (alo, ahi, blo, bhi) x) < 2 * (ahi - alo) + 1"
    using 2(1) [symmetric] 2(2) by (rule queue_weight_push_ranges)
  then show ?case by (simp add: queue_weight_append) (simp add: queue_weight_def)
next
  case 3
  show ?case by (simp add: queue_weight_def)
qed

text \<open>
  After the loop the blocks are sorted, adjacent blocks are merged and the sentinel
  \<open>(len(a), len(b), 0)\<close> is appended.
\<close>

fun merge_adjacent :: "block \<Rightarrow> block list \<Rightarrow> block list" where
  "merge_adjacent (i1, j1, k1) [] = (if k1 \<noteq> 0 then [(i1, j1, k1)] else [])"
| "merge_adjacent (i1, j1, k1) ((i2, j2, k2) # rest) =
     (if i1 + k1 = i2 \<and> j1 + k1 = j2 then merge_adjacent (i1, j1, k1 + k2) rest
      else (if k1 \<noteq> 0 then [(i1, j1, k1)] else []) @ merge_adjacent (i2, j2, k2) rest)"

definition get_matching_blocks :: "'a list \<Rightarrow> 'a list \<Rightarrow> block list" where
  "get_matching_blocks a b =
     merge_adjacent (0, 0, 0) (sort (blocks_loop a b [(0, length a, 0, length b)] [])) @
     [(length a, length b, 0)]"

definition ratio :: "'a list \<Rightarrow> 'a list \<Rightarrow> rat" where
  "ratio a b =
     (let matches = sum_list (map (\<lambda>(i, j, k). k) (get_matching_blocks a b));
          len = length a + length b
      in if len \<noteq> 0 then 2 * of_nat matches / of_nat len else 1)"

section \<open>image_verification.py: name similarity and cross-check\<close>

text \<open>\<^verbatim>\<open>a in b\<close> on strings is the contiguous substring test, \<open>sublist\<close>.\<close>

definition name_similarity :: "string \<Rightarrow> string \<Rightarrow> rat" where
  "name_similarity name_a name_b =
     (if name_a = [] \<or> name_b = [] then 0
      else
        let a = normalize_name name_a; b = normalize_name name_b in
        if a = [] \<or> b = [] then 0
        else if a = b then 1
        else if sublist a b \<or> sublist b a then 9 / 10
        else ratio a b)"

text \<open>
  \<^verbatim>\<open>round(x, ndigits)\<close> on the exact value: to the nearest multiple of
  \<open>10^-ndigits\<close>, a tie to the even one.
\<close>

definition round_half_even :: "rat \<Rightarrow> int" where
  "round_half_even x =
     (let f = \<lfloor>x\<rfloor>; d = x - of_int f in
      if d < 1 / 2 then f else if 1 / 2 < d then f + 1 else if even f then f else f + 1)"

definition py_round :: "rat \<Rightarrow> nat \<Rightarrow> rat" where
  "py_round x ndigits = of_int (round_half_even (x * 10 ^ ndigits)) / 10 ^ ndigits"

definition NAME_MATCH_THRESHOLD :: rat where
  "NAME_MATCH_THRESHOLD = 65 / 100"

text \<open>
  A name argument is \<open>None\<close> or a string. Python's truth test \<^verbatim>\<open>if name\<close> holds for a
  string that is not empty.
\<close>

fun truthy :: "string option \<Rightarrow> bool" where
  "truthy None = False"
| "truthy (Some s) = (s \<noteq> [])"

text \<open>The sentences that \<open>cross_check_names\<close> appends to \<open>details\<close>.\<close>

datatype name_detail =
    Business_name_matches rat string string
  | Business_name_mismatch rat string string
  | No_dti_business_name
  | Owner_name_matches rat string string
  | Owner_name_mismatch rat string string
  | No_dti_owner_name
  | No_dti_name_data

record name_check =
  business_name_match :: "bool option"
  owner_name_match :: "bool option"
  business_name_similarity :: rat
  owner_name_similarity :: rat
  overall_match :: bool
  score :: rat
  details :: "name_detail list"

text \<open>
  The state of the function body: the result dictionary and the two counters
  \<open>checks_done\<close> and \<open>total_score\<close>.
\<close>

type_synonym name_check_state = "name_check \<times> nat \<times> rat"

definition check_business_name ::
    "string option \<Rightarrow> string option \<Rightarrow> name_check_state \<Rightarrow> name_check_state" where
  "check_business_name user_business_name dti_business_name st =
     (case st of (result, checks_done, total_score) \<Rightarrow>
      if truthy user_business_name \<and> truthy dti_business_name then
        let u = the user_business_name; d = the dti_business_name;
            sim = name_similarity u d;
            m = (NAME_MATCH_THRESHOLD \<le> sim)
        in (result\<lparr>business_name_similarity := py_round sim 3,
                    business_name_match := Some m,
                    details := details result @
                      [if m then Business_name_matches sim u d
                       else Business_name_mismatch sim u d]\<rparr>,
            checks_done + 1, total_score + sim)
      else if truthy user_business_name \<and> \<not> truthy dti_business_name then
        (result\<lparr>details := details result @ [No_dti_business_name]\<rparr>,
         checks_done, total_score)
      else st)"

definition check_owner_name ::
    "string option \<Rightarrow> string option \<Rightarrow> name_check_state \<Rightarrow> name_check_state" where
  "check_owner_name user_owner_name dti_owner_name st =
     (case st of (result, checks_done, total_score) \<Rightarrow>
      if truthy user_owner_name \<and> truthy dti_owner_name then
        let u = the user_owner_name; d = the dti_owner_name;
            sim = name_similarity u d;
            m = (NAME_MATCH_THRESHOLD \<le> sim)
        in (result\<lparr>owner_name_similarity := py_round sim 3,
                    owner_name_match := Some m,
                    details := details result @
                      [if m then Owner_name_matches sim u d
                       else Owner_name_mismatch sim u d]\<rparr>,
            checks_done + 1, total_score + sim)
      else if truthy user_owner_name \<and> \<not> truthy dti_owner_name then
        (result\<lparr>details := details result @ [No_dti_owner_name]\<rparr>,
         checks_done, total_score)
      else st)"

definition cross_check_names ::
    "string option \<Rightarrow> string option \<Rightarrow> string option \<Rightarrow> string option \<Rightarrow> name_check" where
  "cross_check_names user_business_name user_owner_name dti_business_name dti_owner_name =
     (let result = \<lparr>business_name_match = None, owner_name_match = None,
                     business_name_similarity = 0, owner_name_similarity = 0,
                     overall_match = False, score = 0, details = []\<rparr>;
          st = check_owner_name user_owner_name dti_owner_name
                 (check_business_name user_business_name dti_business_name (result, 0, 0))
      in case st of (result, checks_done, total_score) \<Rightarrow>
        if 0 < checks_done then
          let s = py_round (total_score / of_nat checks_done) 3 in
          result\<lparr>score := s, overall_match := (NAME_MATCH_THRESHOLD \<le> s)\<rparr>
        else
          result\<lparr>score := 1 / 2, overall_match := True,
                   details := details result @ [No_dti_name_data]\<rparr>)"

section \<open>Properties of the feature vector\<close>




section \<open>Properties of the quality gate\<close>

text \<open>
  C8: \<open>check_image_quality\<close> evaluates its rules in a fixed order and the first failure
  wins. An undecodable image fails with the message "Invalid image file". A decoded image
  whose height or width is below 200 fails the size check, whatever its blur and
  brightness. With both dimensions at least 200, a Laplacian variance below 30 fails as
  too blurry, whatever the brightness. With the variance at least 30 (exactly 30
  included), a brightness below 30 or above 230 fails. With the brightness in [30, 230]
  (both ends included) the image passes.
\<close>

theorem check_image_quality_rule_order:
  "check_image_quality Imread_none = (False, Text ''Invalid image file'') \<and>
   (height img < 200 \<or> width img < 200 \<longrightarrow>
      check_image_quality (Imread_array img) =
        (False, Image_too_small (width img) (height img))) \<and>
   (200 \<le> height img \<and> 200 \<le> width img \<and> lap_var img < 30 \<longrightarrow>
      check_image_quality (Imread_array img) = (False, Image_too_blurry (lap_var img))) \<and>
   (200 \<le> height img \<and> 200 \<le> width img \<and> 30 \<le> lap_var img \<and>
    (brightness img < 30 \<or> 230 < brightness img) \<longrightarrow>
      check_image_quality (Imread_array img) =
        (False, Image_brightness_poor (brightness img))) \<and>
   (200 \<le> height img \<and> 200 \<le> width img \<and> 30 \<le> lap_var img \<and>
    30 \<le> brightness img \<and> brightness img \<le> 230 \<longrightarrow>
      check_image_quality (Imread_array img) = (True, Text ''Image quality OK''))"
  by (auto simp: Let_def)

theorem check_image_quality_rule_order_witness:
  "check_image_quality
     (Imread_array \<lparr>height = 150, width = 640, lap_var = 5, brightness = 10\<rparr>) =
     (False, Image_too_small 640 150) \<and>
   check_image_quality
     (Imread_array \<lparr>height = 200, width = 200, lap_var = 29, brightness = 10\<rparr>) =
     (False, Image_too_blurry 29) \<and>
   check_image_quality
     (Imread_array \<lparr>height = 200, width = 200, lap_var = 30, brightness = 231\<rparr>) =
     (False, Image_brightness_poor 231) \<and>
   check_image_quality
     (Imread_array \<lparr>height = 200, width = 200, lap_var = 30, brightness = 30\<rparr>) =
     (True, Text ''Image quality OK'') \<and>
   check_image_quality
     (Imread_array \<lparr>height = 200, width = 200, lap_var = 30, brightness = 230\<rparr>) =
     (True, Text ''Image quality OK'')"
  using
    check_image_quality_rule_order
      [of "\<lparr>height = 150, width = 640, lap_var = 5, brightness = 10\<rparr>"]
    check_image_quality_rule_order
      [of "\<lparr>height = 200, width = 200, lap_var = 29, brightness = 10\<rparr>"]
    check_image_quality_rule_order
      [of "\<lparr>height = 200, width = 200, lap_var = 30, brightness = 231\<rparr>"]
    check_image_quality_rule_order
      [of "\<lparr>height = 200, width = 200, lap_var = 30, brightness = 30\<rparr>"]
    check_image_quality_rule_order
      [of "\<lparr>height = 200, width = 200, lap_var = 30, brightness = 230\<rparr>"]
  by simp

section \<open>Properties of name normalisation\<close>

lemma is_space_blank: "is_space CHR '' ''"
  by (simp add: is_space_def)

lemma az09_not_space: "is_az09 c \<Longrightarrow> \<not> is_space c"
  by (auto simp: is_az09_def is_space_def Let_def)

lemma lower_char_az09: "is_az09 c \<Longrightarrow> lower_char c = c"
  by (auto simp: is_az09_def lower_char_def Let_def)

lemma lower_char_blank: "lower_char CHR '' '' = CHR '' ''"
  by (simp add: lower_char_def)

lemma re_sub_word_no_match: "\<not> re_search_word w before s \<Longrightarrow> re_sub_word w before s = s"
  by (induction w before s rule: re_sub_word.induct) auto

lemma single_spaced_append:
  "single_spaced (xs @ ys) \<Longrightarrow> single_spaced xs \<and> single_spaced ys"
  by (induction xs rule: single_spaced.induct) (auto split: list.splits elim: single_spaced.elims)

lemma collapse_ws_hd:
  "s \<noteq> [] \<Longrightarrow> \<not> is_space (hd s) \<Longrightarrow> collapse_ws s \<noteq> [] \<and> hd (collapse_ws s) = hd s"
  by (cases s) auto

lemma single_spaced_collapse_ws: "single_spaced (collapse_ws s)"
proof (induction s rule: collapse_ws.induct)
  case 1
  show ?case by simp
next
  case (2 c cs)
  show ?case
  proof (cases "is_space c")
    case True
    let ?t = "dropWhile is_space cs"
    from True 2 have ih: "single_spaced (collapse_ws ?t)" by simp
    show ?thesis
    proof (cases "?t")
      case Nil
      then have "collapse_ws (c # cs) = [CHR '' '']"
        using True by (simp del: dropWhile_eq_Nil_conv)
      then show ?thesis by (simp add: is_space_blank)
    next
      case (Cons d ds)
      then have "\<not> is_space (hd ?t)" using hd_dropWhile [of is_space cs] by simp
      with Cons have "collapse_ws ?t \<noteq> [] \<and> hd (collapse_ws ?t) = d"
        using collapse_ws_hd [of ?t] by simp
      then obtain es where es: "collapse_ws ?t = d # es" by (cases "collapse_ws ?t") auto
      moreover have "\<not> is_space d" using Cons hd_dropWhile [of is_space cs] by simp
      ultimately show ?thesis using True ih by simp
    qed
  next
    case False
    with 2 have ih: "single_spaced (collapse_ws cs)" by simp
    from False show ?thesis using ih by (cases "collapse_ws cs") auto
  qed
qed

lemma set_collapse_ws: "set (collapse_ws s) \<subseteq> insert CHR '' '' {c \<in> set s. \<not> is_space c}"
proof (induction s rule: collapse_ws.induct)
  case 1
  show ?case by simp
next
  case (2 c cs)
  have "set (dropWhile is_space cs) \<subseteq> set cs" by (rule set_dropWhileD [THEN subsetI]) 
  with 2 show ?case by (cases "is_space c") auto
qed

lemma dropWhile_hd_id: "xs \<noteq> [] \<Longrightarrow> \<not> P (hd xs) \<Longrightarrow> dropWhile P xs = xs"
  by (cases xs) auto

lemma strip_decomp: "\<exists>p q. s = p @ strip s @ q"
proof -
  let ?t = "dropWhile is_space s"
  have a: "s = takeWhile is_space s @ ?t" by simp
  have "rev ?t = takeWhile is_space (rev ?t) @ dropWhile is_space (rev ?t)" by simp
  then have "?t = rev (dropWhile is_space (rev ?t)) @ rev (takeWhile is_space (rev ?t))"
    by (metis rev_append rev_rev_ident)
  then have b: "?t = strip s @ rev (takeWhile is_space (rev ?t))"
    by (simp only: strip_def)
  from a b have "s = takeWhile is_space s @ strip s @ rev (takeWhile is_space (rev ?t))"
    by simp
  then show ?thesis by blast
qed

lemma strip_ends:
  "strip s \<noteq> [] \<Longrightarrow> \<not> is_space (hd (strip s)) \<and> \<not> is_space (last (strip s))"
proof -
  assume ne: "strip s \<noteq> []"
  let ?t = "dropWhile is_space s"
  let ?u = "dropWhile is_space (rev ?t)"
  from ne have u: "?u \<noteq> []" by (simp add: strip_def)
  have "?t = [] \<Longrightarrow> ?u = []" by (simp del: dropWhile_eq_Nil_conv)
  with u have t: "?t \<noteq> []" by blast
  have l: "\<not> is_space (hd ?u)" using u hd_dropWhile [of is_space "rev ?t"] by simp
  have "last ?u = last (rev ?t)"
    using u by (metis last_appendR takeWhile_dropWhile_id)
  also have "\<dots> = hd ?t" using t by (simp add: last_rev)
  finally have "last ?u = hd ?t" .
  moreover have "\<not> is_space (hd ?t)" using t hd_dropWhile [of is_space s] by simp
  ultimately have h: "\<not> is_space (last ?u)" by simp
  have "hd (strip s) = last ?u" "last (strip s) = hd ?u"
    using u by (simp_all add: strip_def hd_rev last_rev)
  with l h show ?thesis by simp
qed

lemma strip_id: "s = [] \<or> (\<not> is_space (hd s) \<and> \<not> is_space (last s)) \<Longrightarrow> strip s = s"
proof (cases s)
  case Nil
  then show ?thesis by (simp add: strip_def)
next
  case (Cons c cs)
  assume "s = [] \<or> (\<not> is_space (hd s) \<and> \<not> is_space (last s))"
  with Cons have h: "\<not> is_space (hd s)" and l: "\<not> is_space (last s)" by auto
  from h Cons have a: "dropWhile is_space s = s" by simp
  from Cons have "rev s \<noteq> []" by simp
  moreover have "hd (rev s) = last s" using Cons by (simp only: hd_rev)
  then have "\<not> is_space (hd (rev s))" using l by simp
  ultimately have "dropWhile is_space (rev s) = rev s" by (rule dropWhile_hd_id)
  with a show ?thesis by (simp add: strip_def)
qed

lemma collapse_ws_id: "single_spaced s \<Longrightarrow> collapse_ws s = s"
  by (induction s rule: single_spaced.induct) auto


lemma set_strip: "set (strip s) \<subseteq> set s"
proof -
  obtain p q where "s = p @ strip s @ q" using strip_decomp by blast
  then have "set s = set p \<union> set (strip s) \<union> set q" by (metis set_append sup_assoc)
  then show ?thesis by blast
qed

lemma single_spaced_strip: "single_spaced s \<Longrightarrow> single_spaced (strip s)"
proof -
  assume a: "single_spaced s"
  obtain p q where "s = p @ strip s @ q" using strip_decomp by blast
  with a have "single_spaced (p @ strip s @ q)" by simp
  then have "single_spaced (strip s @ q)" using single_spaced_append by blast
  then show ?thesis using single_spaced_append by blast
qed

lemma normalize_name_chars:
  assumes "c \<in> set (normalize_name x)"
  shows "is_az09 c \<or> c = CHR '' ''"
proof (cases "x = []")
  case True
  with assms show ?thesis by (simp add: normalize_name_def)
next
  case False
  let ?z = "filter (\<lambda>c. is_az09 c \<or> is_space c) (strip_suffixes (strip (lower x)))"
  from False assms have "c \<in> set (strip (collapse_ws ?z))" by (simp add: normalize_name_def)
  then have "c \<in> set (collapse_ws ?z)" using set_strip by blast
  then have "c = CHR '' '' \<or> (c \<in> set ?z \<and> \<not> is_space c)"
    using set_collapse_ws [of ?z] by blast
  then show ?thesis by auto
qed

lemma normalize_name_single_spaced: "single_spaced (normalize_name x)"
  by (simp add: normalize_name_def single_spaced_strip single_spaced_collapse_ws)

lemma normalize_name_ends:
  "normalize_name x = [] \<or>
   (\<not> is_space (hd (normalize_name x)) \<and> \<not> is_space (last (normalize_name x)))"
  using strip_ends by (auto simp: normalize_name_def)

lemma strip_suffixes_no_match:
  "\<forall>w \<in> set ws. \<not> re_search_word w False y \<Longrightarrow>
   foldl (\<lambda>n suffix. re_sub_word suffix False n) y ws = y"
  by (induction ws) (simp_all add: re_sub_word_no_match)

text \<open>
  C5, as amended: for every string \<open>x\<close> whose normalised form contains none of the ten
  suffix words as a whole word (none of the patterns \<open>\bsuffix\b\<close> matches it),
  \<open>_normalize_name(_normalize_name(x))\<close> equals \<open>_normalize_name(x)\<close>.
\<close>

theorem normalize_name_idempotent_without_suffix_words:
  assumes "\<forall>w \<in> set SUFFIXES. \<not> re_search_word w False (normalize_name x)"
  shows "normalize_name (normalize_name x) = normalize_name x"
proof (cases "normalize_name x = []")
  case True
  then show ?thesis by (simp add: normalize_name_def)
next
  case False
  let ?y = "normalize_name x"
  have chars: "\<forall>c \<in> set ?y. is_az09 c \<or> c = CHR '' ''"
    using normalize_name_chars by blast
  have "\<forall>c \<in> set ?y. lower_char c = c"
    using chars lower_char_az09 lower_char_blank by blast
  then have l: "lower ?y = ?y" by (simp add: lower_def map_idI)
  have s: "strip ?y = ?y" using normalize_name_ends [of x] by (rule strip_id)
  have f: "strip_suffixes ?y = ?y"
    unfolding strip_suffixes_def using assms by (rule strip_suffixes_no_match)
  have "\<forall>c \<in> set ?y. is_az09 c \<or> is_space c" using chars is_space_blank by blast
  then have k: "filter (\<lambda>c. is_az09 c \<or> is_space c) ?y = ?y" by simp
  have c: "collapse_ws ?y = ?y" using normalize_name_single_spaced by (rule collapse_ws_id)
  have "normalize_name ?y =
      strip (collapse_ws (filter (\<lambda>c. is_az09 c \<or> is_space c) (strip_suffixes (strip (lower ?y)))))"
    using False by (simp add: normalize_name_def)
  also have "\<dots> = ?y" by (simp only: l s f k c)
  finally show ?thesis .
qed

theorem normalize_name_idempotent_without_suffix_words_witness:
  "normalize_name (normalize_name ''Juan Farm'') = normalize_name ''Juan Farm'' \<and>
   normalize_name ''Juan Farm'' = ''juan''"
proof -
  have n: "normalize_name ''Juan Farm'' = ''juan''" by code_simp
  have h: "\<forall>w \<in> set SUFFIXES. \<not> re_search_word w False (normalize_name ''Juan Farm'')"
    unfolding n by code_simp
  from normalize_name_idempotent_without_suffix_words [OF h] n show ?thesis by simp
qed

text \<open>
  Idempotence fails in general: the suffix words are removed before the punctuation, so
  punctuation inside a suffix word hides it from the first pass and not from the second.
  \<open>far-m\<close> normalises to \<open>farm\<close>, and \<open>farm\<close> normalises to the empty string.
\<close>

theorem normalize_name_not_idempotent:
  "normalize_name (normalize_name ''far-m'') \<noteq> normalize_name ''far-m''"
proof -
  have a: "normalize_name ''far-m'' = ''farm''" by code_simp
  have b: "normalize_name ''farm'' = []" by code_simp
  show ?thesis unfolding a b by simp
qed

section \<open>Properties of name similarity and cross-check\<close>

lemma normalize_name_Nil: "normalize_name [] = []"
  by (simp add: normalize_name_def)

text \<open>
  C6, as amended: for every string \<open>a\<close> whose normalised form is not empty,
  \<open>_name_similarity(a, a)\<close> is 1.0, and it is 0.0 when the normalised form is empty; and
  \<open>_name_similarity(a, b)\<close> equals \<open>_name_similarity(b, a)\<close> whenever the result is
  decided before the sequence matcher is reached, that is when one of the two normalised
  names is empty, or they are equal, or one contains the other.
\<close>

theorem name_similarity_reflexive_and_symmetric_cases:
  "(normalize_name a \<noteq> [] \<longrightarrow> name_similarity a a = 1) \<and>
   (normalize_name a = [] \<longrightarrow> name_similarity a a = 0) \<and>
   (normalize_name a = [] \<or> normalize_name b = [] \<or> normalize_name a = normalize_name b \<or>
    sublist (normalize_name a) (normalize_name b) \<or>
    sublist (normalize_name b) (normalize_name a) \<longrightarrow>
      name_similarity a b = name_similarity b a)"
proof (intro conjI impI)
  assume "normalize_name a \<noteq> []"
  moreover from this have "a \<noteq> []" using normalize_name_Nil by auto
  ultimately show "name_similarity a a = 1" by (simp add: name_similarity_def)
next
  assume "normalize_name a = []"
  then show "name_similarity a a = 0" by (simp add: name_similarity_def)
next
  assume "normalize_name a = [] \<or> normalize_name b = [] \<or>
    normalize_name a = normalize_name b \<or>
    sublist (normalize_name a) (normalize_name b) \<or>
    sublist (normalize_name b) (normalize_name a)"
  then show "name_similarity a b = name_similarity b a"
    by (auto simp: name_similarity_def Let_def)
qed

theorem name_similarity_reflexive_and_symmetric_cases_witness:
  "name_similarity ''Juan Farm'' ''Juan Farm'' = 1 \<and>
   name_similarity ''Juan Farm'' ''Juan Cruz'' = name_similarity ''Juan Cruz'' ''Juan Farm'' \<and>
   name_similarity ''Farm'' ''Farm'' = 0"
proof -
  have a: "normalize_name ''Juan Farm'' = ''juan''" by code_simp
  have b: "normalize_name ''Juan Cruz'' = ''juan cruz''" by code_simp
  have c: "normalize_name ''Farm'' = []" by code_simp
  have s: "sublist ''juan'' ''juan cruz''" by code_simp
  from name_similarity_reflexive_and_symmetric_cases [of "''Juan Farm''" "''Juan Cruz''"]
    name_similarity_reflexive_and_symmetric_cases [of "''Farm''" "''Farm''"]
  show ?thesis unfolding a b c using s by simp
qed

text \<open>
  The claim as stated fails twice. A non-empty name made of suffix words only normalises
  to the empty string, and its similarity to itself is 0.0. The ratio of the sequence
  matcher depends on the order of its arguments: it is 0.25 for \<open>tide\<close>, \<open>diet\<close> and 0.5
  for \<open>diet\<close>, \<open>tide\<close>.
\<close>

theorem name_similarity_not_reflexive_not_symmetric:
  "''farm'' \<noteq> [] \<and> name_similarity ''farm'' ''farm'' \<noteq> 1 \<and>
   name_similarity ''tide'' ''diet'' \<noteq> name_similarity ''diet'' ''tide''"
proof -
  have a: "name_similarity ''farm'' ''farm'' = 0" by code_simp
  have b: "name_similarity ''tide'' ''diet'' = 1 / 4" by code_simp
  have c: "name_similarity ''diet'' ''tide'' = 1 / 2" by code_simp
  show ?thesis unfolding a b c by simp
qed

text \<open>
  C4: for every call of \<open>cross_check_names\<close> in which neither the business-name pair nor
  the owner-name pair has both sides present (a side is present when it is a non-empty
  string), the result has score exactly 0.5 and overall_match exactly true.
\<close>

theorem cross_check_names_no_comparable_pair:
  assumes "\<not> (truthy user_business_name \<and> truthy dti_business_name)"
    and "\<not> (truthy user_owner_name \<and> truthy dti_owner_name)"
  shows "score (cross_check_names user_business_name user_owner_name
           dti_business_name dti_owner_name) = 1 / 2 \<and>
         overall_match (cross_check_names user_business_name user_owner_name
           dti_business_name dti_owner_name) = True"
  using assms
  by (auto simp: cross_check_names_def check_business_name_def check_owner_name_def Let_def)

theorem cross_check_names_no_comparable_pair_witness:
  "score (cross_check_names (Some ''Juan Farm'') (Some []) None (Some ''Juan Dela Cruz'')) = 1 / 2 \<and>
   overall_match
     (cross_check_names (Some ''Juan Farm'') (Some []) None (Some ''Juan Dela Cruz'')) = True"
proof -
  have h1: "\<not> (truthy (Some ''Juan Farm'') \<and> truthy None)" by simp
  have h2: "\<not> (truthy (Some []) \<and> truthy (Some ''Juan Dela Cruz''))" by simp
  from cross_check_names_no_comparable_pair [OF h1 h2] show ?thesis .
qed

end
